theory Spec2Isabelle
  imports Main "HOL-Library.Sublist"
begin

section \<open>Text primitives of Python's \<open>str\<close>\<close>

text \<open>
  A Python \<open>str\<close> is modelled as a \<open>string\<close>, one \<open>char\<close> per code point, for texts
  whose code points lie in U+0000..U+00FF. The whitespace test is that of
  \<open>str.isspace\<close>, which \<open>str.strip\<close>, \<open>str.lstrip\<close> and the regular expression class
  \<open>\s\<close> all use: in this range the code points 9..13, 28..31, 32, 133 and 160.
\<close>

definition isspace :: "char \<Rightarrow> bool" where
  "isspace c = ((of_char c :: nat) \<in> set [9, 10, 11, 12, 13, 28, 29, 30, 31, 32, 133, 160])"

definition lstrip :: "string \<Rightarrow> string" where
  "lstrip s = dropWhile isspace s"

definition rstrip :: "string \<Rightarrow> string" where
  "rstrip s = rev (dropWhile isspace (rev s))"

definition strip :: "string \<Rightarrow> string" where
  "strip s = lstrip (rstrip s)"

text \<open>\<open>if line.strip():\<close> tests that the stripped line is not the empty string.\<close>

definition nonblank :: "string \<Rightarrow> bool" where
  "nonblank line = (strip line \<noteq> [])"

section \<open>Indentation Normalizer\<close>

text \<open>\<open>get_indent\<close>: \<open>line[:len(line) - len(line.lstrip())]\<close>.\<close>

definition get_indent :: "string \<Rightarrow> string" where
  "get_indent line = take (length line - length (lstrip line)) line"

text \<open>
  \<open>adjust_indentation\<close>, with its three early returns and the loop over the lines
  written as a \<open>map\<close>.
\<close>

definition adjust_indentation :: "string list \<Rightarrow> string \<Rightarrow> string list" where
  "adjust_indentation lines target_indent =
     (if lines = [] then lines
      else
        let non_empty_lines = filter nonblank lines in
        if non_empty_lines = [] then lines
        else
          let current_indent = get_indent (hd non_empty_lines);
              min_indent_length = length current_indent
          in if current_indent = target_indent then lines
             else map (\<lambda>line. if nonblank line
                                then target_indent @ drop min_indent_length line
                                else line) lines)"

section \<open>Python list indexing and slicing\<close>

text \<open>
  Line numbers are Python integers. An index below zero counts from the end; a slice
  clamps both bounds to the list, an index outside the list raises \<open>IndexError\<close>
  (\<open>None\<close> here).
\<close>

definition py_index :: "'a list \<Rightarrow> int \<Rightarrow> 'a option" where
  "py_index xs i =
     (if 0 \<le> i \<and> i < int (length xs) then Some (xs ! nat i)
      else if - int (length xs) \<le> i \<and> i < 0 then Some (xs ! nat (int (length xs) + i))
      else None)"

definition clamp_bound :: "nat \<Rightarrow> int \<Rightarrow> nat" where
  "clamp_bound n i = (if i < 0 then nat (max 0 (int n + i)) else min (nat i) n)"

definition slice_bounds :: "nat \<Rightarrow> int \<Rightarrow> int \<Rightarrow> nat \<times> nat" where
  "slice_bounds n a b = (let s = clamp_bound n a; e = clamp_bound n b in (s, max s e))"

text \<open>\<open>xs[a:b]\<close>\<close>

definition py_slice :: "'a list \<Rightarrow> int \<Rightarrow> int \<Rightarrow> 'a list" where
  "py_slice xs a b = (case slice_bounds (length xs) a b of (s, e) \<Rightarrow> take (e - s) (drop s xs))"

text \<open>\<open>xs[a:b] = new\<close>\<close>

definition py_slice_assign :: "'a list \<Rightarrow> int \<Rightarrow> int \<Rightarrow> 'a list \<Rightarrow> 'a list" where
  "py_slice_assign xs a b new =
     (case slice_bounds (length xs) a b of (s, e) \<Rightarrow> take s xs @ new @ drop e xs)"

section \<open>Syntax trees\<close>

text \<open>
  The part of Python's \<open>ast\<close> that \<open>LocationCollector\<close> looks at. An \<open>If\<close> carries its
  line span, test, body and \<open>orelse\<close>; every other statement carries its line span and
  its child statements in field order (\<open>generic_visit\<close> walks them in that order; no
  \<open>If\<close> statement occurs below an expression). \<open>Raise\<close> is kept apart because the
  specification speaks of it.
\<close>

datatype unaryop = Invert | Not | UAdd | USub

datatype expr =
    Name string
  | Attribute expr string
  | Call expr "expr list"
  | UnaryOp unaryop expr
  | OtherExpr

datatype stmt =
    If (lineno: int) (end_lineno: int) (test: expr) (body: "stmt list") (orelse: "stmt list")
  | Raise (lineno: int) (end_lineno: int)
  | OtherStmt (lineno: int) (end_lineno: int) (children: "stmt list")

datatype module = Module "stmt list"

section \<open>Flag Usage Locator\<close>

text \<open>
  The dictionaries appended to \<open>self.locations\<close>. The two branch keys exist only in
  a record with \<open>keep_body\<close>; the key \<open>'body'\<close>, which nothing reads, is left out.
\<close>

record location =
  if_start :: int
  if_end :: int
  true_branch_start :: "int option"
  true_branch_end :: "int option"
  keep_body :: bool

text \<open>
  The first half of \<open>visit_If\<close>: the pair \<open>(is_feature_flag, keep_body)\<close> after the
  \<open>if\<close>/\<open>elif\<close> on the test.
\<close>

fun classify :: "string \<Rightarrow> expr \<Rightarrow> bool \<times> bool" where
  "classify flag (Call func args) =
     (case func of Attribute v attr \<Rightarrow> (attr = flag, True) | _ \<Rightarrow> (False, True))"
| "classify flag (UnaryOp Not operand) =
     (case operand of
        Call (Attribute v attr) args \<Rightarrow> if attr = flag then (True, False) else (False, True)
      | _ \<Rightarrow> (False, True))"
| "classify flag _ = (False, True)"

text \<open>\<open>min\<close> and \<open>max\<close> of a generator raise \<open>ValueError\<close> when it is empty.\<close>

fun py_min :: "int list \<Rightarrow> int option" where
  "py_min [] = None"
| "py_min (x # xs) = Some (fold min xs x)"

fun py_max :: "int list \<Rightarrow> int option" where
  "py_max [] = None"
| "py_max (x # xs) = Some (fold max xs x)"

text \<open>
  The second half of \<open>visit_If\<close>: what the node itself appends to \<open>self.locations\<close>,
  before \<open>generic_visit\<close> descends. \<open>None\<close> is a raised exception.
\<close>

definition visit_If_record :: "string \<Rightarrow> int \<Rightarrow> int \<Rightarrow> expr \<Rightarrow> stmt list \<Rightarrow> location list option" where
  "visit_If_record flag ln eln tst bdy =
     (case classify flag tst of
        (is_feature_flag, keep) \<Rightarrow>
          if is_feature_flag then
            if keep then
              (case py_min (map (\<lambda>s. lineno s - 1) bdy) of
                 None \<Rightarrow> None
               | Some tbs \<Rightarrow>
                   (case py_max (map end_lineno bdy) of
                      None \<Rightarrow> None
                    | Some tbe \<Rightarrow>
                        Some [\<lparr>if_start = ln - 1, if_end = eln,
                               true_branch_start = Some tbs, true_branch_end = Some tbe,
                               keep_body = True\<rparr>]))
            else Some [\<lparr>if_start = ln - 1, if_end = eln,
                        true_branch_start = None, true_branch_end = None,
                        keep_body = False\<rparr>]
          else Some [])"

text \<open>
  \<open>NodeVisitor.visit\<close>: an \<open>If\<close> goes through \<open>visit_If\<close>, which appends its own
  record and then visits body and \<open>orelse\<close>; any other node is walked by
  \<open>generic_visit\<close>. The result is \<open>self.locations\<close>, in the order of the appends.
\<close>

fun visit :: "string \<Rightarrow> stmt \<Rightarrow> location list option"
  and visit_all :: "string \<Rightarrow> stmt list \<Rightarrow> location list option" where
  "visit flag (If ln eln tst bdy els) =
     (case visit_If_record flag ln eln tst bdy of
        None \<Rightarrow> None
      | Some own \<Rightarrow>
          (case visit_all flag bdy of
             None \<Rightarrow> None
           | Some inner \<Rightarrow>
               (case visit_all flag els of
                  None \<Rightarrow> None
                | Some inner' \<Rightarrow> Some (own @ inner @ inner'))))"
| "visit flag (Raise ln eln) = Some []"
| "visit flag (OtherStmt ln eln cs) = visit_all flag cs"
| "visit_all flag [] = Some []"
| "visit_all flag (s # ss) =
     (case visit flag s of
        None \<Rightarrow> None
      | Some here \<Rightarrow>
          (case visit_all flag ss of None \<Rightarrow> None | Some rest \<Rightarrow> Some (here @ rest)))"

definition collect_locations :: "string \<Rightarrow> module \<Rightarrow> location list option" where
  "collect_locations flag tree = (case tree of Module stmts \<Rightarrow> visit_all flag stmts)"

section \<open>Source Rewriter\<close>

text \<open>
  One pass of the loop body of \<open>clean_flag_usage\<close> on the current \<open>lines\<close>.
  \<open>lines[loc['if_start']]\<close> raises \<open>IndexError\<close> outside the list.
\<close>

definition apply_location :: "string list \<Rightarrow> location \<Rightarrow> string list option" where
  "apply_location lines loc =
     (if keep_body loc then
        (case py_index lines (if_start loc) of
           None \<Rightarrow> None
         | Some if_line \<Rightarrow>
             (case (true_branch_start loc, true_branch_end loc) of
                (Some tbs, Some tbe) \<Rightarrow>
                  let if_indent = get_indent if_line;
                      true_branch_lines = py_slice lines tbs tbe;
                      adjusted_lines = adjust_indentation true_branch_lines if_indent
                  in Some (py_slice_assign lines (if_start loc) (if_end loc) adjusted_lines)
              | _ \<Rightarrow> None))
      else Some (py_slice_assign lines (if_start loc) (if_end loc) []))"

text \<open>The loop, over the records in the order given.\<close>

fun apply_locations :: "string list \<Rightarrow> location list \<Rightarrow> string list option" where
  "apply_locations lines [] = Some lines"
| "apply_locations lines (loc # locs) =
     (case apply_location lines loc of
        None \<Rightarrow> None
      | Some lines' \<Rightarrow> apply_locations lines' locs)"

text \<open>
  \<open>str.splitlines(keepends=True)\<close>. In the modelled range a line ends after
  \<open>\n\<close>, \<open>\r\<close>, \<open>\r\n\<close>, and the code points 11, 12, 28, 29, 30 and 133. The first
  argument is the line read so far.
\<close>

definition is_linebreak :: "char \<Rightarrow> bool" where
  "is_linebreak c = ((of_char c :: nat) \<in> set [10, 11, 12, 13, 28, 29, 30, 133])"

fun splitlines_from :: "string \<Rightarrow> string \<Rightarrow> string list" where
  "splitlines_from cur [] = (if cur = [] then [] else [cur])"
| "splitlines_from cur [c] = [cur @ [c]]"
| "splitlines_from cur (c # d # s) =
     (if c = CHR 0x0D \<and> d = CHR 0x0A then (cur @ [c, d]) # splitlines_from [] s
      else if is_linebreak c then (cur @ [c]) # splitlines_from [] (d # s)
      else splitlines_from (cur @ [c]) (d # s))"

definition splitlines :: "string \<Rightarrow> string list" where
  "splitlines s = splitlines_from [] s"

text \<open>
  \<open>clean_flag_usage\<close>. \<open>ast.parse\<close> belongs to Python's library, not to this program:
  it is the parameter \<open>parse\<close>, with \<open>None\<close> for a raised \<open>SyntaxError\<close>. Every
  exception inside the \<open>try\<close> ends in \<open>return source, False\<close>.
\<close>

definition clean_flag_usage :: "(string \<Rightarrow> module option) \<Rightarrow> string \<Rightarrow> string \<Rightarrow> string \<times> bool" where
  "clean_flag_usage parse source feature_flag_name =
     (case parse source of
        None \<Rightarrow> (source, False)
      | Some tree \<Rightarrow>
          (case collect_locations feature_flag_name tree of
             None \<Rightarrow> (source, False)
           | Some locations \<Rightarrow>
               if locations = [] then (source, False)
               else
                 (case apply_locations (splitlines source) (rev locations) of
                    None \<Rightarrow> (source, False)
                  | Some lines \<Rightarrow> (concat lines, True))))"

section \<open>Flag Declaration Remover\<close>

text \<open>\<open>sub in s\<close> and \<open>s.count(c)\<close> for a one-character \<open>c\<close>.\<close>

definition startswith :: "string \<Rightarrow> string \<Rightarrow> bool" where
  "startswith p s = (take (length p) s = p)"

fun contains :: "string \<Rightarrow> string \<Rightarrow> bool" where
  "contains sub [] = (sub = [])"
| "contains sub (c # s) = (startswith sub (c # s) \<or> contains sub s)"

definition paren_balance :: "string \<Rightarrow> int" where
  "paren_balance line = int (count_list line (CHR ''('')) - int (count_list line (CHR '')''))"

text \<open>
  \<open>flag_pattern\<close> is \<open>{flag_name}\s*=\s*FeatureFlag\([^)]*\)\<close>, the flag name spliced in
  unescaped. A flag name is an identifier, which the pattern matches letter by letter;
  this is what is modelled. \<open>match_here\<close> is a match starting at the head of the text:
  the name, all whitespace, \<open>=\<close>, all whitespace, \<open>FeatureFlag(\<close>, then any closing
  parenthesis further on (\<open>=\<close> and \<open>F\<close> are no whitespace, so \<open>\s*\<close> can only take all of
  it). \<open>re_search\<close> tries every start.
\<close>

definition match_here :: "string \<Rightarrow> string \<Rightarrow> bool" where
  "match_here flag_name s =
     (startswith flag_name s \<and>
      (case dropWhile isspace (drop (length flag_name) s) of
         [] \<Rightarrow> False
       | c # r \<Rightarrow>
           c = CHR ''='' \<and>
           (let r' = dropWhile isspace r
            in startswith ''FeatureFlag('' r' \<and>
               CHR '')'' \<in> set (drop (length ''FeatureFlag('') r'))))"

fun re_search :: "string \<Rightarrow> string \<Rightarrow> bool" where
  "re_search flag_name [] = match_here flag_name []"
| "re_search flag_name (c # s) = (match_here flag_name (c # s) \<or> re_search flag_name s)"

text \<open>\<open>full_definition.replace('\n', '')\<close>\<close>

definition remove_newlines :: "string \<Rightarrow> string" where
  "remove_newlines s = filter (\<lambda>c. c \<noteq> CHR 0x0A) s"

text \<open>
  \<open>re.sub(r'\n\n\n+', '\n\n', result)\<close>: from the left, three newlines in a row
  together with every newline that follows them become two.
\<close>

function collapse_blank :: "string \<Rightarrow> string" where
  "collapse_blank (a # b # c # s) =
     (if a = CHR 0x0A \<and> b = CHR 0x0A \<and> c = CHR 0x0A
      then CHR 0x0A # CHR 0x0A # collapse_blank (dropWhile (\<lambda>x. x = CHR 0x0A) s)
      else a # collapse_blank (b # c # s))"
| "collapse_blank [a, b] = [a, b]"
| "collapse_blank [a] = [a]"
| "collapse_blank [] = []"
  by pat_completeness auto
termination
  by (relation "measure length") (auto simp: less_Suc_eq_le intro: le_trans [OF length_dropWhile_le])

text \<open>
  The inner \<open>while\<close> of \<open>remove_flag_definition\<close>: it returns the index it stops at and
  the accumulated text.
\<close>

function lookahead :: "string list \<Rightarrow> nat \<Rightarrow> string \<Rightarrow> int \<Rightarrow> nat \<times> string" where
  "lookahead lines i full_definition nested_level =
     (if i < length lines \<and> nested_level > 0 then
        let next_line = lines ! i
        in lookahead lines (i + 1) (full_definition @ next_line)
             (nested_level + paren_balance next_line)
      else (i, full_definition))"
  by pat_completeness auto
termination
  by (relation "measure (\<lambda>(lines, i, f, n). length lines - i)") auto

declare lookahead.simps [simp del]

lemma lookahead_index_ge: "i \<le> fst (lookahead lines i full n)"
proof (induction lines i full n rule: lookahead.induct)
  case (1 lines i full n)
  show ?case
  proof (cases "i < length lines \<and> n > 0")
    case True
    have "lookahead lines i full n =
          lookahead lines (i + 1) (full @ lines ! i) (n + paren_balance (lines ! i))"
      using True by (subst lookahead.simps) (simp add: Let_def)
    with "1.IH" [OF True refl] show ?thesis by simp
  next
    case False
    then have "lookahead lines i full n = (i, full)"
      by (subst lookahead.simps) auto
    then show ?thesis by simp
  qed
qed

lemma lookahead_index_geD: "lookahead lines i full n = (j, f) \<Longrightarrow> i \<le> j"
  using lookahead_index_ge [of i lines full n] by simp

text \<open>
  The outer \<open>while\<close>, with the state \<open>(i, output_lines, modified)\<close>. Each call is one
  pass of the loop; \<open>continue\<close> and the final \<open>i += 1\<close> are the recursive calls. In the
  branch that found no declaration the source does \<open>i -= 1\<close> and then the final
  \<open>i += 1\<close>, written \<open>j - 1 + 1\<close> (\<open>j\<close> is at least 1 there).
\<close>

function scan :: "string \<Rightarrow> string list \<Rightarrow> nat \<Rightarrow> string list \<Rightarrow> bool \<Rightarrow> string list \<times> bool" where
  "scan flag_name lines i output_lines modified =
     (if i < length lines then
        let line = lines ! i in
        if \<not> nonblank line then
          scan flag_name lines (i + 1) (output_lines @ [line]) modified
        else if contains flag_name line then
          if re_search flag_name line then
            scan flag_name lines (i + 1) output_lines True
          else if contains ''='' line \<and> contains ''FeatureFlag('' line then
            (case lookahead lines (i + 1) line (paren_balance line) of
               (j, full_definition) \<Rightarrow>
                 if re_search flag_name (remove_newlines full_definition) then
                   scan flag_name lines j output_lines True
                 else
                   scan flag_name lines (j - 1 + 1) (output_lines @ [line]) modified)
          else scan flag_name lines (i + 1) (output_lines @ [line]) modified
        else scan flag_name lines (i + 1) (output_lines @ [line]) modified
      else (output_lines, modified))"
  by pat_completeness auto
termination
  by (relation "measure (\<lambda>(f, lines, i, out, m). length lines - i)")
     (auto dest!: lookahead_index_geD sym [THEN lookahead_index_geD])

declare scan.simps [simp del]

definition remove_flag_definition :: "string \<Rightarrow> string \<Rightarrow> string \<times> bool" where
  "remove_flag_definition content flag_name =
     (case scan flag_name (splitlines content) 0 [] False of
        (output_lines, modified) \<Rightarrow> (collapse_blank (concat output_lines), modified))"

section \<open>File Processor\<close>

text \<open>
  The text-to-text part of \<open>process_file\<close>, between reading the file and writing it:
  the pair \<open>(cleaned_source, modified)\<close>. Whether the path contains \<open>feature_flags\<close> is
  the parameter \<open>is_declarations_file\<close>. The file is written, with \<open>cleaned_source\<close>,
  exactly when \<open>modified\<close> holds.
\<close>

definition process_text :: "(string \<Rightarrow> module option) \<Rightarrow> bool \<Rightarrow> string \<Rightarrow> string \<Rightarrow> string \<times> bool" where
  "process_text parse is_declarations_file source feature_flag_name =
     (let (cleaned_source, modified) =
            (if is_declarations_file then remove_flag_definition source feature_flag_name
             else (source, False))
      in case clean_flag_usage parse (if \<not> modified then source else cleaned_source)
                feature_flag_name of
           (cleaned_source', was_modified) \<Rightarrow> (cleaned_source', modified \<or> was_modified))"

section \<open>Vocabulary of the specification\<close>

text \<open>
  A direct flag check is a call whose callee is a member access whose attribute equals
  the flag name; a negated check is the logical negation of one.
\<close>

fun direct_flag_call :: "string \<Rightarrow> expr \<Rightarrow> bool" where
  "direct_flag_call flag (Call (Attribute v attr) args) = (attr = flag)"
| "direct_flag_call flag _ = False"

fun negated_flag_call :: "string \<Rightarrow> expr \<Rightarrow> bool" where
  "negated_flag_call flag (UnaryOp Not e) = direct_flag_call flag e"
| "negated_flag_call flag _ = False"

text \<open>A \<open>raise\<close> statement, the unconditional abort of the specification.\<close>

fun is_raise :: "stmt \<Rightarrow> bool" where
  "is_raise (Raise ln eln) = True"
| "is_raise _ = False"

text \<open>
  What Python's parser guarantees of every tree it returns: line numbers start at 1, a
  statement ends no earlier than it starts, the statements below a statement lie within
  its line span, and the body of an \<open>If\<close> is not empty.
\<close>

definition within :: "int \<Rightarrow> int \<Rightarrow> stmt \<Rightarrow> bool" where
  "within lo hi s = (lo \<le> lineno s \<and> end_lineno s \<le> hi)"

fun wf_stmt :: "stmt \<Rightarrow> bool" and wf_stmts :: "stmt list \<Rightarrow> bool" where
  "wf_stmt (If ln eln tst bdy els) =
     (1 \<le> ln \<and> ln \<le> eln \<and> bdy \<noteq> [] \<and> list_all (within ln eln) bdy \<and>
      list_all (within ln eln) els \<and> wf_stmts bdy \<and> wf_stmts els)"
| "wf_stmt (Raise ln eln) = (1 \<le> ln \<and> ln \<le> eln)"
| "wf_stmt (OtherStmt ln eln cs) =
     (1 \<le> ln \<and> ln \<le> eln \<and> list_all (within ln eln) cs \<and> wf_stmts cs)"
| "wf_stmts [] = True"
| "wf_stmts (s # ss) = (wf_stmt s \<and> wf_stmts ss)"

text \<open>
  Every statement in the body of every \<open>If\<close> starts on a line below the line the \<open>If\<close>
  starts on.
\<close>

fun body_below_guard :: "stmt \<Rightarrow> bool" and body_below_guard_all :: "stmt list \<Rightarrow> bool" where
  "body_below_guard (If ln eln tst bdy els) =
     (list_all (\<lambda>s. ln < lineno s) bdy \<and> body_below_guard_all bdy \<and> body_below_guard_all els)"
| "body_below_guard (Raise ln eln) = True"
| "body_below_guard (OtherStmt ln eln cs) = body_below_guard_all cs"
| "body_below_guard_all [] = True"
| "body_below_guard_all (s # ss) = (body_below_guard s \<and> body_below_guard_all ss)"

text \<open>The body span lies within the construct span and is not empty.\<close>

definition body_within_construct :: "location \<Rightarrow> bool" where
  "body_within_construct r =
     (case (true_branch_start r, true_branch_end r) of
        (Some tbs, Some tbe) \<Rightarrow>
          0 \<le> if_start r \<and> if_start r \<le> tbs \<and> tbs < tbe \<and> tbe \<le> if_end r
      | _ \<Rightarrow> False)"

text \<open>
  The span invariant in the words of the specification: the body span starts after the
  construct span starts, ends no later, and the two spans differ.
\<close>

definition body_strictly_within :: "location \<Rightarrow> bool" where
  "body_strictly_within r =
     (case (true_branch_start r, true_branch_end r) of
        (Some tbs, Some tbe) \<Rightarrow>
          if_start r < tbs \<and> tbe \<le> if_end r \<and> (if_start r, if_end r) \<noteq> (tbs, tbe)
      | _ \<Rightarrow> False)"

text \<open>
  A line at which the Declaration Remover starts its multi-line lookahead: not blank, with
  the flag name, \<open>=\<close> and \<open>FeatureFlag(\<close> in it, and no declaration on the line itself.
\<close>

definition starts_lookahead :: "string \<Rightarrow> string \<Rightarrow> bool" where
  "starts_lookahead flag_name line =
     (nonblank line \<and> contains flag_name line \<and> \<not> re_search flag_name line \<and>
      contains ''='' line \<and> contains ''FeatureFlag('' line)"


section \<open>Example sources\<close>

text \<open>
  Python sources used below, each with the tree \<open>ast.parse\<close> returns for it (an
  expression statement or an assignment is an \<open>OtherStmt\<close> without children).
  \<open>parse_examples\<close> is applied to these sources only.
\<close>

definition oneline_source :: string where
  "oneline_source = ''if a.F(): x()\<newline>''"

definition oneline_tree :: module where
  "oneline_tree =
     Module [If 1 1 (Call (Attribute (Name ''a'') ''F'') [])
               [OtherStmt 1 1 []] []]"

definition oneline_else_source :: string where
  "oneline_else_source =
     ''if a.F(): x()\<newline>'' @
     ''else: y()\<newline>''"

definition oneline_else_tree :: module where
  "oneline_else_tree =
     Module [If 1 2 (Call (Attribute (Name ''a'') ''F'') [])
               [OtherStmt 1 1 []] [OtherStmt 2 2 []]]"

definition nested_source :: string where
  "nested_source =
     ''if a.F():\<newline>'' @
     ''    if b.F():\<newline>'' @
     ''        x()\<newline>'' @
     ''    else:\<newline>'' @
     ''        y()\<newline>'' @
     ''z()\<newline>''"

definition nested_tree :: module where
  "nested_tree =
     Module [If 1 5 (Call (Attribute (Name ''a'') ''F'') [])
               [If 2 5 (Call (Attribute (Name ''b'') ''F'') [])
                  [OtherStmt 3 3 []]
                  [OtherStmt 5 5 []]]
               [],
             OtherStmt 6 6 []]"

definition plain_source :: string where
  "plain_source = ''x = 1\<newline>''"

definition plain_tree :: module where
  "plain_tree = Module [OtherStmt 1 1 []]"

definition parse_examples :: "string \<Rightarrow> module option" where
  "parse_examples =
     map_of [(plain_source, plain_tree),
             (oneline_source, oneline_tree),
             (oneline_else_source, oneline_else_tree),
             (nested_source, nested_tree)]"

section \<open>Indentation Normalizer: properties\<close>

lemma get_indent_takeWhile: "get_indent line = takeWhile isspace line"
proof -
  have "length line - length (dropWhile isspace line) = length (takeWhile isspace line)"
    by (metis add_diff_cancel_right' length_append takeWhile_dropWhile_id)
  moreover have "take (length (takeWhile isspace line)) line = takeWhile isspace line"
    by (metis append_eq_conv_conj takeWhile_dropWhile_id)
  ultimately show ?thesis by (simp add: get_indent_def lstrip_def)
qed

lemma indent_lstrip: "get_indent line @ lstrip line = line"
  by (simp add: get_indent_takeWhile lstrip_def)

lemma length_adjust_indentation: "length (adjust_indentation lines target) = length lines"
  by (simp add: adjust_indentation_def Let_def)

text \<open>
  C10, as amended. When the block has no non-blank line, or the indentation of its first
  non-blank line already equals the target, \<open>adjust_indentation\<close> returns the block
  unchanged. Otherwise every non-blank line loses exactly \<open>k\<close> leading characters and gets
  the target indentation in front, \<open>k\<close> being the length of the leading whitespace of the
  first non-blank line, and blank lines pass through. Dropping \<open>k\<close> characters from a line
  whose own indentation is at least \<open>k\<close> long leaves the rest of its indentation and all of
  its content; from a line whose indentation is shorter it also removes the first
  characters of the content.
\<close>

theorem adjust_indentation_per_line:
  "(filter nonblank lines = [] \<longrightarrow> adjust_indentation lines target = lines) \<and>
   (filter nonblank lines \<noteq> [] \<and> get_indent (hd (filter nonblank lines)) = target \<longrightarrow>
      adjust_indentation lines target = lines) \<and>
   (filter nonblank lines \<noteq> [] \<and> get_indent (hd (filter nonblank lines)) \<noteq> target \<longrightarrow>
      adjust_indentation lines target =
        map (\<lambda>line. if nonblank line
                     then target @ drop (length (get_indent (hd (filter nonblank lines)))) line
                     else line) lines) \<and>
   (length (get_indent line) \<ge> k \<longrightarrow> drop k line = drop k (get_indent line) @ lstrip line) \<and>
   (length (get_indent line) < k \<longrightarrow>
      drop k line = drop (k - length (get_indent line)) (lstrip line))"
proof -
  have a: "filter nonblank lines = [] \<longrightarrow> adjust_indentation lines target = lines"
    by (simp add: adjust_indentation_def)
  have b: "filter nonblank lines \<noteq> [] \<and> get_indent (hd (filter nonblank lines)) = target \<longrightarrow>
      adjust_indentation lines target = lines"
    by (simp add: adjust_indentation_def Let_def)
  have c: "filter nonblank lines \<noteq> [] \<and> get_indent (hd (filter nonblank lines)) \<noteq> target \<longrightarrow>
      adjust_indentation lines target =
        map (\<lambda>line. if nonblank line
                     then target @ drop (length (get_indent (hd (filter nonblank lines)))) line
                     else line) lines"
    by (auto simp add: adjust_indentation_def Let_def)
  have d: "length (get_indent line) \<ge> k \<longrightarrow> drop k line = drop k (get_indent line) @ lstrip line"
  proof
    assume "length (get_indent line) \<ge> k"
    then have "drop k (get_indent line @ lstrip line) = drop k (get_indent line) @ lstrip line"
      by simp
    then show "drop k line = drop k (get_indent line) @ lstrip line"
      by (simp add: indent_lstrip)
  qed
  have e: "length (get_indent line) < k \<longrightarrow>
      drop k line = drop (k - length (get_indent line)) (lstrip line)"
  proof
    assume "length (get_indent line) < k"
    then have "drop k (get_indent line @ lstrip line) = drop (k - length (get_indent line)) (lstrip line)"
      by simp
    then show "drop k line = drop (k - length (get_indent line)) (lstrip line)"
      by (simp add: indent_lstrip)
  qed
  from a b c d e show ?thesis by blast
qed

text \<open>The theorem at a block of four lines re-indented from four spaces to two.\<close>

theorem adjust_indentation_per_line_witness:
  "filter nonblank [''    a\<newline>'', ''      b\<newline>'', ''\<newline>'', ''c\<newline>''] \<noteq> [] \<and>
   get_indent (hd (filter nonblank [''    a\<newline>'', ''      b\<newline>'', ''\<newline>'', ''c\<newline>''])) \<noteq> ''  '' \<and>
   adjust_indentation [''    a\<newline>'', ''      b\<newline>'', ''\<newline>'', ''c\<newline>''] ''  '' =
     [''  a\<newline>'', ''    b\<newline>'', ''\<newline>'', ''  '']"
  using adjust_indentation_per_line [of "[''    a\<newline>'', ''      b\<newline>'', ''\<newline>'', ''c\<newline>'']" "''  ''" 0 "[]"]
  by (simp add: nonblank_def strip_def lstrip_def rstrip_def isspace_def get_indent_def)

text \<open>
  C10 as stated fails on the early return: with the target equal to the indentation of
  the first non-blank line, the second line, which has no indentation, is not rewritten.
\<close>

theorem adjust_indentation_fast_path_counterexample:
  "nonblank ''b\<newline>'' \<and>
   adjust_indentation [''  a\<newline>'', ''b\<newline>''] ''  '' ! 1 \<noteq>
     ''  '' @ drop (length (get_indent (hd (filter nonblank [''  a\<newline>'', ''b\<newline>''])))) ''b\<newline>''"
  by (simp add: adjust_indentation_def nonblank_def strip_def lstrip_def rstrip_def isspace_def get_indent_def)


section \<open>Flag Usage Locator: properties\<close>

lemma classify_cases:
  "classify flag e =
     (if direct_flag_call flag e then (True, True)
      else if negated_flag_call flag e then (True, False)
      else (False, True))"
  by (induction flag e rule: classify.induct)
     (auto split: expr.splits unaryop.splits)

lemma wf_stmt_span: "wf_stmt s \<Longrightarrow> 1 \<le> lineno s \<and> lineno s \<le> end_lineno s"
  by (cases s) auto

lemma fold_min_le: "fold min xs (x::int) \<le> x"
proof (induction xs arbitrary: x)
  case Nil
  show ?case by simp
next
  case (Cons a xs)
  have "fold min xs (min a x) \<le> min a x" by (rule Cons.IH)
  then show ?case by simp
qed

lemma fold_min_ge: "lo \<le> x \<Longrightarrow> \<forall>y\<in>set xs. lo \<le> y \<Longrightarrow> lo \<le> fold min xs (x::int)"
  by (induction xs arbitrary: x) auto

lemma fold_max_ge: "(x::int) \<le> fold max xs x"
proof (induction xs arbitrary: x)
  case Nil
  show ?case by simp
next
  case (Cons a xs)
  have "max a x \<le> fold max xs (max a x)" by (rule Cons.IH)
  then show ?case by simp
qed

lemma fold_max_le: "x \<le> hi \<Longrightarrow> \<forall>y\<in>set xs. y \<le> hi \<Longrightarrow> fold max xs (x::int) \<le> hi"
  by (induction xs arbitrary: x) auto

lemma clamp_bound_nonneg: "0 \<le> i \<Longrightarrow> clamp_bound n i = min (nat i) n"
  by (simp add: clamp_bound_def)

lemma min_diff_le: "(p::nat) \<le> q \<Longrightarrow> max (min p n) (min q n) - min p n \<le> q - p"
  by (auto simp add: min_def max_def)

lemma length_py_slice:
  assumes "0 \<le> a" "a \<le> b"
  shows "length (py_slice xs a b) \<le> nat (b - a)"
proof -
  have b: "0 \<le> b" using assms by simp
  have pq: "nat a \<le> nat b" using assms by simp
  have "length (py_slice xs a b) =
        min (length xs - min (nat a) (length xs))
            (max (min (nat a) (length xs)) (min (nat b) (length xs)) - min (nat a) (length xs))"
    by (simp add: py_slice_def slice_bounds_def Let_def clamp_bound_nonneg [OF assms(1)]
          clamp_bound_nonneg [OF b] del: min_less_iff_conj)
  also have "\<dots> \<le> max (min (nat a) (length xs)) (min (nat b) (length xs)) - min (nat a) (length xs)"
    by (rule min.cobounded2)
  also have "\<dots> \<le> nat b - nat a"
    by (rule min_diff_le [OF pq])
  also have "\<dots> = nat (b - a)"
    using assms by simp
  finally show ?thesis .
qed

lemma visit_If_record_keep_shape:
  assumes "visit_If_record flag ln eln tst bdy = Some own" "r \<in> set own" "keep_body r"
  shows "\<exists>s ss. bdy = s # ss \<and>
           r = \<lparr>if_start = ln - 1, if_end = eln,
                true_branch_start = Some (fold min (map (\<lambda>s. lineno s - 1) ss) (lineno s - 1)),
                true_branch_end = Some (fold max (map end_lineno ss) (end_lineno s)),
                keep_body = True\<rparr>"
proof -
  obtain a b where c: "classify flag tst = (a, b)" by (cases "classify flag tst")
  show ?thesis
  proof (cases a)
    case False
    with assms c show ?thesis by (simp add: visit_If_record_def)
  next
    case a: True
    show ?thesis
    proof (cases b)
      case False
      with assms c a show ?thesis by (auto simp add: visit_If_record_def)
    next
      case b: True
      show ?thesis
      proof (cases bdy)
        case Nil
        with assms c a b show ?thesis by (simp add: visit_If_record_def)
      next
        case (Cons s ss)
        with assms c a b show ?thesis by (auto simp add: visit_If_record_def)
      qed
    qed
  qed
qed

lemma visit_If_record_keep:
  assumes "visit_If_record flag ln eln tst bdy = Some own" "r \<in> set own" "keep_body r"
    and "1 \<le> ln" "list_all (within ln eln) bdy" "wf_stmts bdy"
  shows "body_within_construct r"
proof -
  from visit_If_record_keep_shape [OF assms(1-3)] obtain s ss where
    bdy: "bdy = s # ss" and
    r: "r = \<lparr>if_start = ln - 1, if_end = eln,
                true_branch_start = Some (fold min (map (\<lambda>s. lineno s - 1) ss) (lineno s - 1)),
                true_branch_end = Some (fold max (map end_lineno ss) (end_lineno s)),
                keep_body = True\<rparr>"
    by blast
  have s: "wf_stmt s" "within ln eln s" and ss: "\<forall>t\<in>set ss. within ln eln t"
    using assms(5,6) bdy by (simp_all add: list_all_iff)
  have 1: "fold min (map (\<lambda>s. lineno s - 1) ss) (lineno s - 1) \<le> lineno s - 1"
    by (rule fold_min_le)
  have "\<forall>y\<in>set (map (\<lambda>s. lineno s - 1) ss). ln - 1 \<le> y"
    using ss by (auto simp: within_def)
  moreover have "ln - 1 \<le> lineno s - 1"
    using s by (simp add: within_def)
  ultimately have 2: "ln - 1 \<le> fold min (map (\<lambda>s. lineno s - 1) ss) (lineno s - 1)"
    by (intro fold_min_ge)
  have 3: "end_lineno s \<le> fold max (map end_lineno ss) (end_lineno s)"
    by (rule fold_max_ge)
  have "\<forall>y\<in>set (map end_lineno ss). y \<le> eln"
    using ss by (auto simp: within_def)
  moreover have "end_lineno s \<le> eln"
    using s by (simp add: within_def)
  ultimately have 4: "fold max (map end_lineno ss) (end_lineno s) \<le> eln"
    by (intro fold_max_le)
  have 5: "lineno s - 1 < end_lineno s"
    using wf_stmt_span [OF s(1)] by simp
  from 1 3 5 have 6: "fold min (map (\<lambda>s. lineno s - 1) ss) (lineno s - 1)
       < fold max (map end_lineno ss) (end_lineno s)" by linarith
  from \<open>1 \<le> ln\<close> 2 4 6 show ?thesis by (simp add: r body_within_construct_def)
qed

lemma visit_If_split:
  assumes "visit flag (If ln eln tst bdy els) = Some locs"
  shows "\<exists>own inner inner'. visit_If_record flag ln eln tst bdy = Some own \<and>
           visit_all flag bdy = Some inner \<and> visit_all flag els = Some inner' \<and>
           locs = own @ inner @ inner'"
proof (cases "visit_If_record flag ln eln tst bdy")
  case None
  with assms show ?thesis by simp
next
  case own: (Some own)
  show ?thesis
  proof (cases "visit_all flag bdy")
    case None
    with assms own show ?thesis by simp
  next
    case inner: (Some inner)
    show ?thesis
    proof (cases "visit_all flag els")
      case None
      with assms own inner show ?thesis by simp
    next
      case (Some inner')
      with assms own inner show ?thesis by simp
    qed
  qed
qed

lemma visit_all_split:
  assumes "visit_all flag (s # ss) = Some locs"
  shows "\<exists>here rest. visit flag s = Some here \<and> visit_all flag ss = Some rest \<and>
           locs = here @ rest"
proof (cases "visit flag s")
  case None
  with assms show ?thesis by simp
next
  case here: (Some here)
  show ?thesis
  proof (cases "visit_all flag ss")
    case None
    with assms here show ?thesis by simp
  next
    case (Some rest)
    with assms here show ?thesis by simp
  qed
qed

lemma visit_keep_spans:
  "wf_stmt s \<Longrightarrow> visit flag s = Some locs \<Longrightarrow> r \<in> set locs \<Longrightarrow> keep_body r \<Longrightarrow>
     body_within_construct r"
  "wf_stmts ss \<Longrightarrow> visit_all flag ss = Some locs \<Longrightarrow> r \<in> set locs \<Longrightarrow> keep_body r \<Longrightarrow>
     body_within_construct r"
proof (induction flag s and flag ss arbitrary: locs and locs rule: visit_visit_all.induct)
  case (1 flag ln eln tst bdy els)
  from visit_If_split [OF "1.prems"(2)] obtain own inner inner' where
    own: "visit_If_record flag ln eln tst bdy = Some own"
    and inner: "visit_all flag bdy = Some inner"
    and inner': "visit_all flag els = Some inner'"
    and locs: "locs = own @ inner @ inner'"
    by blast
  from "1.prems"(1) have wf: "1 \<le> ln" "list_all (within ln eln) bdy" "wf_stmts bdy" "wf_stmts els"
    by simp_all
  from "1.prems"(3) locs consider "r \<in> set own" | "r \<in> set inner" | "r \<in> set inner'" by auto
  then show ?case
  proof cases
    case 1
    then show ?thesis using "1.prems"(4) wf by (intro visit_If_record_keep [OF own])
  next
    case 2
    show ?thesis by (rule "1.IH"(1) [OF own wf(3) inner 2 "1.prems"(4)])
  next
    case 3
    show ?thesis by (rule "1.IH"(2) [OF own inner wf(4) inner' 3 "1.prems"(4)])
  qed
next
  case (2 flag ln eln)
  then show ?case by simp
next
  case (3 flag ln eln cs)
  from "3.prems"(1) have "wf_stmts cs" by simp
  moreover from "3.prems"(2) have "visit_all flag cs = Some locs" by simp
  ultimately show ?case using "3.IH" "3.prems"(3,4) by blast
next
  case (4 flag)
  then show ?case by simp
next
  case (5 flag s ss)
  from visit_all_split [OF "5.prems"(2)] obtain here rest where
    here: "visit flag s = Some here" and rest: "visit_all flag ss = Some rest"
    and locs: "locs = here @ rest"
    by blast
  from "5.prems"(1) have wf: "wf_stmt s" "wf_stmts ss" by simp_all
  from "5.prems"(3) locs consider "r \<in> set here" | "r \<in> set rest" by auto
  then show ?case
  proof cases
    case 1
    show ?thesis by (rule "5.IH"(1) [OF wf(1) here 1 "5.prems"(4)])
  next
    case 2
    show ?thesis by (rule "5.IH"(2) [OF here wf(2) rest 2 "5.prems"(4)])
  qed
qed


lemma fold_min_gt: "lo < x \<Longrightarrow> \<forall>y\<in>set xs. lo < y \<Longrightarrow> lo < fold min xs (x::int)"
  by (induction xs arbitrary: x) auto

lemma visit_If_record_keep_strict:
  assumes "visit_If_record flag ln eln tst bdy = Some own" "r \<in> set own" "keep_body r"
    and "1 \<le> ln" "list_all (within ln eln) bdy" "wf_stmts bdy"
    and "list_all (\<lambda>s. ln < lineno s) bdy"
  shows "body_strictly_within r"
proof -
  from visit_If_record_keep_shape [OF assms(1-3)] obtain s ss where
    bdy: "bdy = s # ss" and
    r: "r = \<lparr>if_start = ln - 1, if_end = eln,
                true_branch_start = Some (fold min (map (\<lambda>s. lineno s - 1) ss) (lineno s - 1)),
                true_branch_end = Some (fold max (map end_lineno ss) (end_lineno s)),
                keep_body = True\<rparr>"
    by blast
  have w: "body_within_construct r"
    by (rule visit_If_record_keep [OF assms(1-6)])
  have "\<forall>y\<in>set (map (\<lambda>s. lineno s - 1) ss). ln - 1 < y"
    using assms(7) bdy by (auto simp: list_all_iff)
  moreover have "ln - 1 < lineno s - 1"
    using assms(7) bdy by simp
  ultimately have "ln - 1 < fold min (map (\<lambda>s. lineno s - 1) ss) (lineno s - 1)"
    by (intro fold_min_gt)
  with w show ?thesis
    by (simp add: r body_within_construct_def body_strictly_within_def)
qed

lemma visit_keep_strict:
  "wf_stmt s \<Longrightarrow> body_below_guard s \<Longrightarrow> visit flag s = Some locs \<Longrightarrow> r \<in> set locs \<Longrightarrow>
     keep_body r \<Longrightarrow> body_strictly_within r"
  "wf_stmts ss \<Longrightarrow> body_below_guard_all ss \<Longrightarrow> visit_all flag ss = Some locs \<Longrightarrow>
     r \<in> set locs \<Longrightarrow> keep_body r \<Longrightarrow> body_strictly_within r"
proof (induction flag s and flag ss arbitrary: locs and locs rule: visit_visit_all.induct)
  case (1 flag ln eln tst bdy els)
  from visit_If_split [OF "1.prems"(3)] obtain own inner inner' where
    own: "visit_If_record flag ln eln tst bdy = Some own"
    and inner: "visit_all flag bdy = Some inner"
    and inner': "visit_all flag els = Some inner'"
    and locs: "locs = own @ inner @ inner'"
    by blast
  from "1.prems"(1) have wf: "1 \<le> ln" "list_all (within ln eln) bdy" "wf_stmts bdy" "wf_stmts els"
    by simp_all
  from "1.prems"(2) have bg: "list_all (\<lambda>s. ln < lineno s) bdy" "body_below_guard_all bdy"
    "body_below_guard_all els"
    by simp_all
  from "1.prems"(4) locs consider "r \<in> set own" | "r \<in> set inner" | "r \<in> set inner'" by auto
  then show ?case
  proof cases
    case 1
    show ?thesis
      by (rule visit_If_record_keep_strict [OF own 1 "1.prems"(5) wf(1-3) bg(1)])
  next
    case 2
    show ?thesis by (rule "1.IH"(1) [OF own wf(3) bg(2) inner 2 "1.prems"(5)])
  next
    case 3
    show ?thesis by (rule "1.IH"(2) [OF own inner wf(4) bg(3) inner' 3 "1.prems"(5)])
  qed
next
  case (2 flag ln eln)
  then show ?case by simp
next
  case (3 flag ln eln cs)
  from "3.prems"(1) have "wf_stmts cs" by simp
  moreover from "3.prems"(2) have "body_below_guard_all cs" by simp
  moreover from "3.prems"(3) have "visit_all flag cs = Some locs" by simp
  ultimately show ?case using "3.IH" "3.prems"(4,5) by blast
next
  case (4 flag)
  then show ?case by simp
next
  case (5 flag s ss)
  from visit_all_split [OF "5.prems"(3)] obtain here rest where
    here: "visit flag s = Some here" and rest: "visit_all flag ss = Some rest"
    and locs: "locs = here @ rest"
    by blast
  from "5.prems"(1) have wf: "wf_stmt s" "wf_stmts ss" by simp_all
  from "5.prems"(2) have bg: "body_below_guard s" "body_below_guard_all ss" by simp_all
  from "5.prems"(4) locs consider "r \<in> set here" | "r \<in> set rest" by auto
  then show ?case
  proof cases
    case 1
    show ?thesis by (rule "5.IH"(1) [OF wf(1) bg(1) here 1 "5.prems"(5)])
  next
    case 2
    show ?thesis by (rule "5.IH"(2) [OF here wf(2) bg(2) rest 2 "5.prems"(5)])
  qed
qed

lemma py_slice_assign_delete:
  assumes "0 \<le> s" "s \<le> e"
  shows "py_slice_assign lines s e [] = take (nat s) lines @ drop (nat e) lines"
proof -
  have e: "0 \<le> e" using assms by simp
  have pq: "nat s \<le> nat e" using assms by simp
  have "max (min (nat s) (length lines)) (min (nat e) (length lines)) = min (nat e) (length lines)"
    using pq by (simp add: max_def min_def)
  moreover have "drop (min (nat e) (length lines)) lines = drop (nat e) lines"
    by (simp add: min_def)
  moreover have "take (min (nat s) (length lines)) lines = take (nat s) lines"
    by (simp add: min_def)
  ultimately show ?thesis
    by (simp add: py_slice_assign_def slice_bounds_def Let_def
          clamp_bound_nonneg [OF assms(1)] clamp_bound_nonneg [OF e])
qed

text \<open>
  C2, as amended. The Locator records \<open>keep_body = False\<close> for a conditional exactly when
  its guard is the logical negation of a direct flag check, whatever the body is: the
  body is not inspected, so no abort is required. For a record without \<open>keep_body\<close>
  the Rewriter splices the empty list in place of the construct span, which for a span
  \<open>0 \<le> s \<le> e\<close> leaves the lines before \<open>s\<close> and from \<open>e\<close> on. A conditional whose guard
  negates anything but a direct flag check contributes no record of its own.
\<close>

theorem negated_guard_removes_construct:
  "(negated_flag_call flag tst \<longrightarrow>
      visit_If_record flag ln eln tst bdy =
        Some [\<lparr>if_start = ln - 1, if_end = eln, true_branch_start = None,
                true_branch_end = None, keep_body = False\<rparr>]) \<and>
   (\<not> negated_flag_call flag tst \<longrightarrow>
      (\<forall>own r. visit_If_record flag ln eln tst bdy = Some own \<longrightarrow> r \<in> set own \<longrightarrow> keep_body r)) \<and>
   (\<not> keep_body loc \<longrightarrow>
      apply_location lines loc = Some (py_slice_assign lines (if_start loc) (if_end loc) [])) \<and>
   (0 \<le> s \<and> s \<le> e \<longrightarrow>
      py_slice_assign lines s e [] = take (nat s) lines @ drop (nat e) lines) \<and>
   (\<not> direct_flag_call flag operand \<longrightarrow>
      visit_If_record flag ln eln (UnaryOp Not operand) bdy = Some [])"
proof -
  have neg_not_direct: "negated_flag_call flag tst \<Longrightarrow> \<not> direct_flag_call flag tst"
    by (induction flag tst rule: negated_flag_call.induct) simp_all
  have a: "negated_flag_call flag tst \<longrightarrow>
      visit_If_record flag ln eln tst bdy =
        Some [\<lparr>if_start = ln - 1, if_end = eln, true_branch_start = None,
                true_branch_end = None, keep_body = False\<rparr>]"
    using neg_not_direct by (simp add: visit_If_record_def classify_cases)
  have b: "\<not> negated_flag_call flag tst \<longrightarrow>
      (\<forall>own r. visit_If_record flag ln eln tst bdy = Some own \<longrightarrow> r \<in> set own \<longrightarrow> keep_body r)"
    by (auto simp add: visit_If_record_def classify_cases split: if_splits option.splits)
  have c: "\<not> keep_body loc \<longrightarrow>
      apply_location lines loc = Some (py_slice_assign lines (if_start loc) (if_end loc) [])"
    by (simp add: apply_location_def)
  have d: "0 \<le> s \<and> s \<le> e \<longrightarrow>
      py_slice_assign lines s e [] = take (nat s) lines @ drop (nat e) lines"
    using py_slice_assign_delete by blast
  have e: "\<not> direct_flag_call flag operand \<longrightarrow>
      visit_If_record flag ln eln (UnaryOp Not operand) bdy = Some []"
    by (simp add: visit_If_record_def classify_cases)
  from a b c d e show ?thesis by blast
qed

text \<open>
  The theorem at \<open>if not a.F(): raise E()\<close> on lines 2 and 3 of a four-line file, and at the
  guard \<open>not a\<close>.
\<close>

theorem negated_guard_removes_construct_witness:
  "negated_flag_call ''F'' (UnaryOp Not (Call (Attribute (Name ''a'') ''F'') [])) \<and>
   visit_If_record ''F'' 2 3 (UnaryOp Not (Call (Attribute (Name ''a'') ''F'') [])) [Raise 3 3] =
     Some [\<lparr>if_start = 1, if_end = 3, true_branch_start = None,
             true_branch_end = None, keep_body = False\<rparr>] \<and>
   apply_location [''u()\<newline>'', ''if not a.F():\<newline>'', ''    raise E()\<newline>'', ''v()\<newline>'']
      \<lparr>if_start = 1, if_end = 3, true_branch_start = None,
             true_branch_end = None, keep_body = False\<rparr> =
     Some [''u()\<newline>'', ''v()\<newline>''] \<and>
   \<not> direct_flag_call ''F'' (Name ''a'') \<and>
   visit_If_record ''F'' 2 3 (UnaryOp Not (Name ''a'')) [Raise 3 3] = Some []"
  using negated_guard_removes_construct
    [of "''F''" "UnaryOp Not (Call (Attribute (Name ''a'') ''F'') [])" 2 3 "[Raise 3 3]"
        "\<lparr>if_start = 1, if_end = 3, true_branch_start = None,
             true_branch_end = None, keep_body = False\<rparr>"
        "[''u()\<newline>'', ''if not a.F():\<newline>'', ''    raise E()\<newline>'', ''v()\<newline>'']"
        1 3 "Name ''a''"]
  by simp

text \<open>
  C2 as stated fails: for \<open>if not a.F():\<close> with the body \<open>x = 1\<close>, which holds no \<open>raise\<close>,
  the Locator still records \<open>keep_body = False\<close>.
\<close>

theorem negated_guard_without_abort_counterexample:
  "visit_If_record ''F'' 1 2 (UnaryOp Not (Call (Attribute (Name ''a'') ''F'') []))
      [OtherStmt 2 2 []] =
     Some [\<lparr>if_start = 0, if_end = 2, true_branch_start = None,
             true_branch_end = None, keep_body = False\<rparr>] \<and>
   \<not> list_ex is_raise [OtherStmt 2 2 []]"
  by (simp add: visit_If_record_def)

section \<open>Source Rewriter and File Processor: properties\<close>

lemma apply_location_keep_body:
  assumes "keep_body loc" "true_branch_start loc = Some tbs" "true_branch_end loc = Some tbe"
    and "py_index lines (if_start loc) = Some if_line"
  shows "apply_location lines loc =
           Some (py_slice_assign lines (if_start loc) (if_end loc)
                   (adjust_indentation (py_slice lines tbs tbe) (get_indent if_line)))"
  using assms by (simp add: apply_location_def)

lemma apply_location_keep_spliced:
  assumes "keep_body loc" "true_branch_start loc = Some tbs" "true_branch_end loc = Some tbe"
    and "apply_location lines loc = Some lines'"
  shows "\<exists>spliced. lines' = py_slice_assign lines (if_start loc) (if_end loc) spliced \<and>
           length spliced = length (py_slice lines tbs tbe)"
proof (cases "py_index lines (if_start loc)")
  case None
  with assms show ?thesis by (simp add: apply_location_def)
next
  case (Some if_line)
  from apply_location_keep_body [OF assms(1-3) Some] assms(4)
  have "lines' = py_slice_assign lines (if_start loc) (if_end loc)
                   (adjust_indentation (py_slice lines tbs tbe) (get_indent if_line))"
    by simp
  then show ?thesis using length_adjust_indentation by blast
qed

text \<open>
  In a tree as the parser returns it, every record with \<open>keep_body\<close> has a body span that
  is not empty and lies within the construct span, and whenever the Rewriter applies the
  record, the lines it splices in are no more than the body span has.
\<close>

lemma body_span_within_construct_span:
  assumes "wf_stmts stmts"
    and "collect_locations flag (Module stmts) = Some locs"
    and "r \<in> set locs" and "keep_body r"
  shows "\<exists>tbs tbe.
           true_branch_start r = Some tbs \<and> true_branch_end r = Some tbe \<and>
           0 \<le> if_start r \<and> if_start r \<le> tbs \<and> tbs < tbe \<and> tbe \<le> if_end r \<and>
           (\<forall>lines lines'. apply_location lines r = Some lines' \<longrightarrow>
              (\<exists>spliced. lines' = py_slice_assign lines (if_start r) (if_end r) spliced \<and>
                         length spliced \<le> nat (tbe - tbs)))"
proof -
  from assms(2) have v: "visit_all flag stmts = Some locs"
    by (simp add: collect_locations_def)
  have "body_within_construct r"
    by (rule visit_keep_spans(2) [OF assms(1) v assms(3,4)])
  then obtain tbs tbe where
    tb: "true_branch_start r = Some tbs" "true_branch_end r = Some tbe"
    and sp: "0 \<le> if_start r" "if_start r \<le> tbs" "tbs < tbe" "tbe \<le> if_end r"
    by (auto simp: body_within_construct_def split: option.splits)
  have "\<exists>spliced. lines' = py_slice_assign lines (if_start r) (if_end r) spliced \<and>
                   length spliced \<le> nat (tbe - tbs)"
    if a: "apply_location lines r = Some lines'" for lines lines'
  proof -
    from apply_location_keep_spliced [OF assms(4) tb a] obtain spliced where
      s: "lines' = py_slice_assign lines (if_start r) (if_end r) spliced"
         "length spliced = length (py_slice lines tbs tbe)"
      by blast
    have "length (py_slice lines tbs tbe) \<le> nat (tbe - tbs)"
      using sp by (intro length_py_slice) simp_all
    with s show ?thesis by auto
  qed
  with tb sp show ?thesis by blast
qed

text \<open>
  When, in addition, every body starts on a line below its guard, the body span of every
  record with \<open>keep_body\<close> lies strictly within the construct span.
\<close>

lemma body_span_strictly_within_below_guard:
  assumes "wf_stmts stmts" "body_below_guard_all stmts"
    and "collect_locations flag (Module stmts) = Some locs"
    and "r \<in> set locs" and "keep_body r"
  shows "body_strictly_within r"
proof -
  from assms(3) have v: "visit_all flag stmts = Some locs"
    by (simp add: collect_locations_def)
  show ?thesis by (rule visit_keep_strict(2) [OF assms(1,2) v assms(4,5)])
qed

text \<open>
  C9. For \<open>if a.F(): x()\<close> on one line the Locator records the body span \<open>[0, 1)\<close>, which
  is the construct span itself: the body span does not start after the construct span
  and the two spans are equal. A body on the guard's line is the one case in which the
  invariant fails.
\<close>

theorem body_span_equals_construct_span_same_line:
  "collect_locations ''F'' oneline_tree =
     Some [\<lparr>if_start = 0, if_end = 1, true_branch_start = Some 0,
             true_branch_end = Some 1, keep_body = True\<rparr>] \<and>
   \<not> body_strictly_within \<lparr>if_start = 0, if_end = 1, true_branch_start = Some 0,
             true_branch_end = Some 1, keep_body = True\<rparr>"
  by (simp add: collect_locations_def oneline_tree_def visit_If_record_def
        body_strictly_within_def)

text \<open>
  C1. The claim is what the program is for, and the program misses it when the body starts
  on the line of the guard. For
  \<^verbatim>\<open>if a.F(): x()\<close> followed by \<^verbatim>\<open>else: y()\<close>
  the body span is the guard's own line, so the spliced text is that line: the \<open>else\<close>
  clause goes, the guard's header stays.
\<close>

theorem guard_header_survives_same_line_body:
  "clean_flag_usage parse_examples oneline_else_source ''F'' = (''if a.F(): x()\<newline>'', True)"
  by code_simp

text \<open>
  C3. No record is ever discarded. For a flag guard nested in the body of another, the
  Locator lists the outer record first; the Rewriter, going through the list in reverse,
  splices the inner one first, which shortens the file by three lines, and then splices
  the outer one with its old end index 5. The body slice \<open>[1:5]\<close> now reaches past the
  conditional and takes in \<open>z()\<close>, which the Indentation Normalizer cuts down to the empty
  string: the statement after the conditional is lost.
\<close>

theorem nested_guard_splice_uses_stale_indices:
  "collect_locations ''F'' nested_tree =
     Some [\<lparr>if_start = 0, if_end = 5, true_branch_start = Some 1,
             true_branch_end = Some 5, keep_body = True\<rparr>,
           \<lparr>if_start = 1, if_end = 5, true_branch_start = Some 2,
             true_branch_end = Some 3, keep_body = True\<rparr>] \<and>
   clean_flag_usage parse_examples nested_source ''F'' = (''x()\<newline>'', True)"
  by code_simp

text \<open>
  C4. On \<open>if a.F(): x()\<close> the transform returns the text as it was and reports a
  modification; applied to its own output it does the same again.
\<close>

theorem second_pass_reports_modification:
  "process_text parse_examples False oneline_source ''F'' = (oneline_source, True) \<and>
   process_text parse_examples False
     (fst (process_text parse_examples False oneline_source ''F'')) ''F'' = (oneline_source, True)"
  by code_simp

section \<open>Flag Declaration Remover: properties\<close>

lemma concat_splitlines_from: "concat (splitlines_from cur s) = cur @ s"
  by (induction cur s rule: splitlines_from.induct) simp_all

lemma concat_splitlines: "concat (splitlines s) = s"
  by (simp add: splitlines_def concat_splitlines_from)

lemma scan_done: "\<not> i < length lines \<Longrightarrow> scan flag lines i out m = (out, m)"
  by (subst scan.simps) simp

lemma scan_copy:
  assumes "i < length lines" "\<not> contains flag (lines ! i)"
  shows "scan flag lines i out m = scan flag lines (i + 1) (out @ [lines ! i]) m"
  using assms by (subst scan.simps) (simp add: Let_def)

lemma scan_blank:
  assumes "i < length lines" "\<not> nonblank (lines ! i)"
  shows "scan flag lines i out m = scan flag lines (i + 1) (out @ [lines ! i]) m"
  using assms by (subst scan.simps) (simp add: Let_def)

lemma scan_single_line:
  assumes "i < length lines" "nonblank (lines ! i)" "contains flag (lines ! i)"
    "re_search flag (lines ! i)"
  shows "scan flag lines i out m = scan flag lines (i + 1) out True"
  using assms by (subst scan.simps) (simp add: Let_def)

lemma scan_other:
  assumes "i < length lines" "nonblank (lines ! i)" "contains flag (lines ! i)"
    "\<not> re_search flag (lines ! i)"
    "\<not> (contains ''='' (lines ! i) \<and> contains ''FeatureFlag('' (lines ! i))"
  shows "scan flag lines i out m = scan flag lines (i + 1) (out @ [lines ! i]) m"
  using assms by (subst scan.simps) (auto simp add: Let_def)


lemma scan_no_lookahead:
  assumes "\<forall>line\<in>set lines. \<not> starts_lookahead flag line"
  shows "(m \<longrightarrow> snd (scan flag lines i out m)) \<and>
         (\<not> snd (scan flag lines i out m) \<longrightarrow> fst (scan flag lines i out m) = out @ drop i lines)"
proof (induction "length lines - i" arbitrary: i out m)
  case 0
  then show ?case by (simp add: scan_done)
next
  case (Suc n)
  then have i: "i < length lines" and n: "n = length lines - (i + 1)" by simp_all
  have nl: "\<not> starts_lookahead flag (lines ! i)" using assms i by simp
  have app: "(out @ [lines ! i]) @ drop (i + 1) lines = out @ drop i lines"
    using i by (simp add: Cons_nth_drop_Suc)
  consider (copy) "scan flag lines i out m = scan flag lines (i + 1) (out @ [lines ! i]) m"
    | (del) "scan flag lines i out m = scan flag lines (i + 1) out True"
  proof (cases "nonblank (lines ! i)")
    case False
    then show ?thesis using scan_blank [OF i] copy by blast
  next
    case nb: True
    show ?thesis
    proof (cases "contains flag (lines ! i)")
      case False
      then show ?thesis using scan_copy [OF i] copy by blast
    next
      case c: True
      show ?thesis
      proof (cases "re_search flag (lines ! i)")
        case True
        then show ?thesis using scan_single_line [OF i nb c] del by blast
      next
        case False
        with nl nb c have "\<not> (contains ''='' (lines ! i) \<and> contains ''FeatureFlag('' (lines ! i))"
          by (simp add: starts_lookahead_def)
        then show ?thesis using scan_other [OF i nb c False] copy by blast
      qed
    qed
  qed
  then show ?case
  proof cases
    case copy
    have "(m \<longrightarrow> snd (scan flag lines (i + 1) (out @ [lines ! i]) m)) \<and>
          (\<not> snd (scan flag lines (i + 1) (out @ [lines ! i]) m) \<longrightarrow>
             fst (scan flag lines (i + 1) (out @ [lines ! i]) m) =
               (out @ [lines ! i]) @ drop (i + 1) lines)"
      by (rule Suc.hyps(1) [OF n])
    then show ?thesis by (simp only: copy app)
  next
    case del
    have "(True \<longrightarrow> snd (scan flag lines (i + 1) out True)) \<and>
          (\<not> snd (scan flag lines (i + 1) out True) \<longrightarrow>
             fst (scan flag lines (i + 1) out True) = out @ drop (i + 1) lines)"
      by (rule Suc.hyps(1) [OF n])
    then have "snd (scan flag lines (i + 1) out True)" by simp
    then show ?thesis by (simp only: del) simp
  qed
qed









lemma collapse_blank_id: "\<not> contains ''\<newline>\<newline>\<newline>'' s \<Longrightarrow> collapse_blank s = s"
  by (induction s rule: collapse_blank.induct) (auto simp: startswith_def)






lemma clean_flag_usage_unmodified:
  "\<not> snd (clean_flag_usage parse source flag) \<Longrightarrow> fst (clean_flag_usage parse source flag) = source"
  by (simp add: clean_flag_usage_def split: option.splits if_splits)

lemma process_text_unmodified:
  assumes "\<not> snd (process_text parse decl source flag)"
  shows "fst (process_text parse decl source flag) = source"
proof -
  obtain c m where r: "(if decl then remove_flag_definition source flag else (source, False)) = (c, m)"
    by (cases "if decl then remove_flag_definition source flag else (source, False)")
  obtain c' m' where u: "clean_flag_usage parse (if \<not> m then source else c) flag = (c', m')"
    by (cases "clean_flag_usage parse (if \<not> m then source else c) flag")
  have p: "process_text parse decl source flag = (c', m \<or> m')"
    by (simp add: process_text_def r u)
  with assms have m: "\<not> m" "\<not> m'" by simp_all
  from u m have "clean_flag_usage parse source flag = (c', False)" by simp
  with clean_flag_usage_unmodified [of parse source flag] have "c' = source" by simp
  with p show ?thesis by simp
qed

lemma remove_flag_definition_unmodified:
  assumes "\<not> snd (remove_flag_definition content flag)"
    and "\<forall>line\<in>set (splitlines content). \<not> starts_lookahead flag line"
    and "\<not> contains ''\<newline>\<newline>\<newline>'' content"
  shows "fst (remove_flag_definition content flag) = content"
proof -
  have s: "snd (remove_flag_definition content flag) = snd (scan flag (splitlines content) 0 [] False)"
    and f: "fst (remove_flag_definition content flag) =
            collapse_blank (concat (fst (scan flag (splitlines content) 0 [] False)))"
    by (simp_all add: remove_flag_definition_def split: prod.splits)
  from scan_no_lookahead [OF assms(2), of False 0 "[]"] assms(1) s
  have "fst (scan flag (splitlines content) 0 [] False) = splitlines content"
    by simp
  with f have "fst (remove_flag_definition content flag) = collapse_blank content"
    by (simp add: concat_splitlines)
  with assms(3) show ?thesis by (simp add: collapse_blank_id)
qed

text \<open>
  C7, as amended. When \<open>clean_flag_usage\<close> reports no modification, the text it returns
  is its input; so is the text of the File Processor, which passes the original text on
  when the Declaration Remover reports no modification. \<open>remove_flag_definition\<close> on its
  own returns its input when it reports no modification, provided that no line starts a
  multi-line lookahead and the input has no three newlines in a row.
\<close>

theorem unmodified_returns_input:
  "(\<not> snd (clean_flag_usage parse source flag) \<longrightarrow>
      fst (clean_flag_usage parse source flag) = source) \<and>
   (\<not> snd (process_text parse decl source flag) \<longrightarrow>
      fst (process_text parse decl source flag) = source) \<and>
   (\<not> snd (remove_flag_definition source flag) \<and>
    (\<forall>line\<in>set (splitlines source). \<not> starts_lookahead flag line) \<and>
    \<not> contains ''\<newline>\<newline>\<newline>'' source \<longrightarrow>
      fst (remove_flag_definition source flag) = source)"
  using clean_flag_usage_unmodified process_text_unmodified remove_flag_definition_unmodified
  by blast

text \<open>
  The theorem at the one-line source \<open>x = 1\<close>.
\<close>

theorem unmodified_returns_input_witness:
  "\<not> snd (clean_flag_usage parse_examples plain_source ''F'') \<and>
   fst (clean_flag_usage parse_examples plain_source ''F'') = plain_source \<and>
   \<not> snd (process_text parse_examples True plain_source ''F'') \<and>
   fst (process_text parse_examples True plain_source ''F'') = plain_source \<and>
   \<not> snd (remove_flag_definition plain_source ''F'') \<and>
   list_all (\<lambda>line. \<not> starts_lookahead ''F'' line) (splitlines plain_source) \<and>
   \<not> contains ''\<newline>\<newline>\<newline>'' plain_source \<and>
   fst (remove_flag_definition plain_source ''F'') = plain_source"
proof -
  have 1: "\<not> snd (clean_flag_usage parse_examples plain_source ''F'')" by code_simp
  have 2: "\<not> snd (process_text parse_examples True plain_source ''F'')" by code_simp
  have 3: "\<not> snd (remove_flag_definition plain_source ''F'')" by code_simp
  have 4: "list_all (\<lambda>line. \<not> starts_lookahead ''F'' line) (splitlines plain_source)"
    by code_simp
  then have h4: "\<forall>line\<in>set (splitlines plain_source). \<not> starts_lookahead ''F'' line"
    by (simp only: list_all_iff)
  have 5: "\<not> contains ''\<newline>\<newline>\<newline>'' plain_source" by code_simp
  from 1 2 3 4 h4 5 unmodified_returns_input [of parse_examples plain_source "''F''" True]
  show ?thesis by blast
qed

text \<open>
  C7 as stated fails for \<open>remove_flag_definition\<close>: it reports no modification and
  returns a text with two blank lines fewer.
\<close>

theorem unmodified_remover_changes_text_counterexample:
  "remove_flag_definition ''x = 1\<newline>\<newline>\<newline>\<newline>y = 2\<newline>'' ''F'' = (''x = 1\<newline>\<newline>y = 2\<newline>'', False)"
  by code_simp




text \<open>
  C5. The lookahead started at the declaration of \<open>FOOBAR\<close>, which contains the name
  \<open>FOO\<close>, reads two more lines; the accumulated text is no declaration of \<open>FOO\<close>, the
  first line is kept, and the scan resumes after the lookahead: the two lines read are
  missing from the output, and no modification is reported.
\<close>

theorem lookahead_lines_are_dropped:
  "remove_flag_definition
     (''FOOBAR = FeatureFlag(\<newline>'' @
      ''    default=False\<newline>'' @
      '')\<newline>'' @
      ''y = 1\<newline>'') ''FOO'' =
   (''FOOBAR = FeatureFlag(\<newline>'' @ ''y = 1\<newline>'', False)"
  by code_simp

text \<open>
  C8. The pattern is searched for anywhere in the line, with nothing required in front of
  the flag name: the removal of \<open>CHECKOUT\<close> deletes the declaration of \<open>NEW_CHECKOUT\<close>.
  The Locator, which compares the attribute for equality, does not match a check of
  \<open>NEW_CHECKOUT\<close>.
\<close>

theorem suffix_flag_removes_other_declaration:
  "remove_flag_definition ''NEW_CHECKOUT = FeatureFlag(default=False)\<newline>'' ''CHECKOUT'' = ([], True) \<and>
   classify ''CHECKOUT'' (Call (Attribute (Name ''flags'') ''NEW_CHECKOUT'') []) = (False, True)"
  by code_simp

end
